theory Spec2Isabelle
  imports Main "HOL-Library.Word" "HOL-Library.Signed_Division"
begin

section \<open>Machine model\<close>

text \<open>
  The kernels of \<^verbatim>\<open>apps/common/kernel/convolution.h\<close> compute on \<^verbatim>\<open>uint32_t\<close> and
  \<^verbatim>\<open>int32_t\<close> (and \<^verbatim>\<open>int\<close>, 32 bits wide on the target).  Every such value is a
  \<open>32 word\<close>: addition, subtraction and multiplication wrap, \<open><\<close> and \<open>div\<close> are the
  unsigned comparison and division that C selects as soon as one operand is unsigned, and
  \<open><s\<close> is the signed comparison used where both operands are \<^verbatim>\<open>int\<close>.
\<close>

type_synonym u32 = "32 word"

text \<open>
  What C leaves undefined or what never returns is a value of the model: an access outside
  a buffer, a division by zero, and a loop that never exits.
\<close>

datatype fault = OutOfBounds | DivByZero | Diverges

definition rbind :: "'e + 'a \<Rightarrow> ('a \<Rightarrow> 'e + 'b) \<Rightarrow> 'e + 'b" where
  "rbind r f = (case r of Inl e \<Rightarrow> Inl e | Inr v \<Rightarrow> f v)"

text \<open>
  A read-only buffer (\<^verbatim>\<open>in\<close>, \<^verbatim>\<open>k\<close>) is the list of its elements.  A buffer that is
  written (\<^verbatim>\<open>out\<close>, \<^verbatim>\<open>img\<close>) is the list of its elements together with the trace of the
  indices stored to, oldest first; the trace is how ``this lane wrote that element'' is
  observed.
\<close>

type_synonym buffer = "u32 list \<times> nat list"

definition rd :: "u32 list \<Rightarrow> u32 \<Rightarrow> fault + u32" where
  "rd buf idx = (if unat idx < length buf then Inr (buf ! unat idx) else Inl OutOfBounds)"

definition wr :: "buffer \<Rightarrow> u32 \<Rightarrow> u32 \<Rightarrow> fault + buffer" where
  "wr out idx v =
     (if unat idx < length (fst out)
      then Inr ((fst out)[unat idx := v], snd out @ [unat idx])
      else Inl OutOfBounds)"

text \<open>\<^verbatim>\<open>sum / weight\<close> and \<^verbatim>\<open>in_x / numThreads\<close>: one operand is \<^verbatim>\<open>uint32_t\<close>, so the
  other is converted to \<^verbatim>\<open>uint32_t\<close> and the division is unsigned.\<close>

definition div_u32 :: "u32 \<Rightarrow> u32 \<Rightarrow> fault + u32" where
  "div_u32 a b = (if b = 0 then Inl DivByZero else Inr (a div b))"

definition mod_u32 :: "u32 \<Rightarrow> u32 \<Rightarrow> fault + u32" where
  "mod_u32 a b = (if b = 0 then Inl DivByZero else Inr (a mod b))"

text \<open>\<^verbatim>\<open>i % 16\<close> and \<^verbatim>\<open>(j % 4) / 2\<close> on \<^verbatim>\<open>int\<close> operands: C truncates towards zero.
  The divisors in the source are the constants 16, 4 and 2.\<close>

definition rem_i32 :: "u32 \<Rightarrow> u32 \<Rightarrow> u32" where
  "rem_i32 a b = word_of_int (sint a smod sint b)"

definition div_i32 :: "u32 \<Rightarrow> u32 \<Rightarrow> u32" where
  "div_i32 a b = word_of_int (sint a sdiv sint b)"

text \<open>
  A \<^verbatim>\<open>for (i = i0; cond(i); i = incr(i)) body\<close> loop.  The loop variable is a 32-bit
  value, so a loop that has not left after \<open>2 ^ 32\<close> iterations has seen one value of
  its variable twice and never leaves: with the fuel \<open>loop_fuel\<close> the result
  \<open>Inl dv\<close> of an exhausted loop is divergence of the C loop, not an artefact.
\<close>

fun for_loop ::
  "'e \<Rightarrow> nat \<Rightarrow> ('i \<Rightarrow> bool) \<Rightarrow> ('i \<Rightarrow> 'i) \<Rightarrow> ('i \<Rightarrow> 's \<Rightarrow> 'e + 's) \<Rightarrow> 'i \<Rightarrow> 's \<Rightarrow> 'e + 's"
where
  "for_loop dv fuel cond incr body i s =
     (if \<not> cond i then Inr s
      else if fuel = 0 then Inl dv
      else case body i s of
             Inl e \<Rightarrow> Inl e
           | Inr s' \<Rightarrow> for_loop dv (fuel - 1) cond incr body (incr i) s')"

declare for_loop.simps [simp del]

definition loop_fuel :: nat where
  "loop_fuel = 2 ^ 32"

section \<open>The convolution kernels\<close>

text \<open>\<^verbatim>\<open>sum += in[a] * k[b]\<close>: \<^verbatim>\<open>int32_t * uint32_t\<close> is an unsigned product, added to
  \<^verbatim>\<open>sum\<close> modulo \<open>2 ^ 32\<close>.\<close>

definition mac :: "u32 list \<Rightarrow> u32 \<Rightarrow> u32 list \<Rightarrow> u32 \<Rightarrow> u32 \<Rightarrow> fault + u32" where
  "mac inp a k b sumw =
     rbind (rd inp a) (\<lambda>v. rbind (rd k b) (\<lambda>w. Inr (sumw + v * w)))"

text \<open>\<^verbatim>\<open>out[idx] = sum / weight\<close>, the last statement of the pixel loop of each of the
  four kernels: \<^verbatim>\<open>sum\<close> is \<^verbatim>\<open>int32_t\<close> and \<^verbatim>\<open>weight\<close> is \<^verbatim>\<open>uint32_t\<close>, so the
  quotient is the unsigned one, stored as \<^verbatim>\<open>int32_t\<close>.\<close>

definition store_quotient :: "buffer \<Rightarrow> u32 \<Rightarrow> u32 \<Rightarrow> u32 \<Rightarrow> fault + buffer" where
  "store_quotient out idx sumw weight = rbind (div_u32 sumw weight) (\<lambda>q. wr out idx q)"

text \<open>\<^verbatim>\<open>for (int i = 0; i < k_x * k_y; ++i) weight += k[i]\<close>; the bound is unsigned, so
  the comparison is.\<close>

definition kernel_weight :: "u32 list \<Rightarrow> u32 \<Rightarrow> fault + u32" where
  "kernel_weight k n =
     for_loop Diverges loop_fuel (\<lambda>i. i < n) (\<lambda>i. i + 1)
       (\<lambda>i weight. rbind (rd k i) (\<lambda>w. Inr (weight + w))) 0 0"

text \<open>\<^verbatim>\<open>for (int i = 0; i < 9; ++i) weight += k[i]\<close>: both operands are \<^verbatim>\<open>int\<close>.\<close>

definition kernel_weight_3x3 :: "u32 list \<Rightarrow> fault + u32" where
  "kernel_weight_3x3 k =
     for_loop Diverges loop_fuel (\<lambda>i. i <s 9) (\<lambda>i. i + 1)
       (\<lambda>i weight. rbind (rd k i) (\<lambda>w. Inr (weight + w))) 0 0"

text \<open>\<^verbatim>\<open>while (id < boundary_x) id += numThreads\<close> of \<^verbatim>\<open>conv2d_parallel\<close>.\<close>

fun advance_id :: "nat \<Rightarrow> u32 \<Rightarrow> u32 \<Rightarrow> u32 \<Rightarrow> fault + u32" where
  "advance_id fuel id' boundary_x numThreads =
     (if \<not> id' < boundary_x then Inr id'
      else if fuel = 0 then Inl Diverges
      else advance_id (fuel - 1) (id' + numThreads) boundary_x numThreads)"

declare advance_id.simps [simp del]

text \<open>The weighted sum of \<^verbatim>\<open>conv2d_parallel\<close> at column \<open>i\<close>, row \<open>j\<close>: the loops over
  \<open>m\<close> and \<open>n\<close> compare \<^verbatim>\<open>int\<close> with \<^verbatim>\<open>int\<close>.\<close>

definition conv2d_sum ::
  "u32 list \<Rightarrow> u32 \<Rightarrow> u32 list \<Rightarrow> u32 \<Rightarrow> u32 \<Rightarrow> u32 \<Rightarrow> u32 \<Rightarrow> fault + u32" where
  "conv2d_sum inp in_x k k_x k_y i j =
     (let boundary_x = k_x div 2; boundary_y = k_y div 2 in
      for_loop Diverges loop_fuel (\<lambda>m. m <s k_y - boundary_y) (\<lambda>m. m + 1)
        (\<lambda>m sumw.
           for_loop Diverges loop_fuel (\<lambda>n. n <s k_x - boundary_x) (\<lambda>n. n + 1)
             (\<lambda>n sumw. mac inp ((j + m) * in_x + (i + n))
                           k ((m + boundary_y) * k_x + (n + boundary_x)) sumw)
             (- boundary_x) sumw)
        (- boundary_y) 0)"

definition conv2d_parallel ::
  "u32 list \<Rightarrow> u32 \<Rightarrow> u32 \<Rightarrow> u32 list \<Rightarrow> u32 \<Rightarrow> u32 \<Rightarrow> buffer \<Rightarrow> u32 \<Rightarrow> u32 \<Rightarrow> fault + buffer"
where
  "conv2d_parallel inp in_x in_y k k_x k_y out id' numThreads =
     (let boundary_x = k_x div 2; boundary_y = k_y div 2 in
      rbind (advance_id loop_fuel id' boundary_x numThreads) (\<lambda>id'.
      rbind (kernel_weight k (k_x * k_y)) (\<lambda>weight.
      for_loop Diverges loop_fuel (\<lambda>i. i < in_x - boundary_x) (\<lambda>i. i + numThreads)
        (\<lambda>i out.
           for_loop Diverges loop_fuel (\<lambda>j. j < in_y - boundary_y) (\<lambda>j. j + 1)
             (\<lambda>j out.
                rbind (conv2d_sum inp in_x k k_x k_y i j) (\<lambda>sumw.
                store_quotient out (j * in_x + i) sumw weight))
             boundary_y out)
        id' out)))"

text \<open>The weighted sum of \<^verbatim>\<open>conv2d_shifted_parallel\<close> with the window's top-left corner
  at column \<open>i\<close>, row \<open>j\<close>.\<close>

definition conv2d_shifted_sum ::
  "u32 list \<Rightarrow> u32 \<Rightarrow> u32 list \<Rightarrow> u32 \<Rightarrow> u32 \<Rightarrow> u32 \<Rightarrow> u32 \<Rightarrow> fault + u32" where
  "conv2d_shifted_sum inp in_x k k_x k_y i j =
     for_loop Diverges loop_fuel (\<lambda>m. m < k_y) (\<lambda>m. m + 1)
       (\<lambda>m sumw.
          for_loop Diverges loop_fuel (\<lambda>n. n < k_x) (\<lambda>n. n + 1)
            (\<lambda>n sumw. mac inp ((j + m) * in_x + (i + n)) k (m * k_x + n) sumw)
            0 sumw)
       0 0"

definition conv2d_shifted_parallel ::
  "u32 list \<Rightarrow> u32 \<Rightarrow> u32 \<Rightarrow> u32 list \<Rightarrow> u32 \<Rightarrow> u32 \<Rightarrow> buffer \<Rightarrow> u32 \<Rightarrow> u32 \<Rightarrow> fault + buffer"
where
  "conv2d_shifted_parallel inp in_x in_y k k_x k_y out id' numThreads =
     (let boundary_x = k_x div 2; boundary_y = k_y div 2 in
      rbind (kernel_weight k (k_x * k_y)) (\<lambda>weight.
      for_loop Diverges loop_fuel (\<lambda>i. i < in_x - 2 * boundary_x) (\<lambda>i. i + numThreads)
        (\<lambda>i out.
           for_loop Diverges loop_fuel (\<lambda>j. j < in_y - 2 * boundary_y) (\<lambda>j. j + 1)
             (\<lambda>j out.
                rbind (conv2d_shifted_sum inp in_x k k_x k_y i j) (\<lambda>sumw.
                store_quotient out ((j + boundary_y) * in_x + (i + boundary_x)) sumw weight))
             0 out)
        id' out))"

text \<open>Lines 94--107 of \<^verbatim>\<open>conv2d_3x3_unrolled_parallel\<close>: the block of columns of a lane,
  first as computed, then clamped to the interior.\<close>

definition block_range :: "u32 \<Rightarrow> u32 \<Rightarrow> u32 \<Rightarrow> fault + u32 \<times> u32" where
  "block_range in_x id' numThreads =
     rbind (div_u32 in_x numThreads) (\<lambda>div'.
     rbind (mod_u32 in_x numThreads) (\<lambda>rem.
     (let start = div' * id';
          end' = div' * (id' + 1);
          start = start + (if id' < rem then id' else rem);
          end' = end' + (if id' < rem then id' else rem)
      in Inr (start, end'))))"

definition clamp_range :: "u32 \<Rightarrow> u32 \<times> u32 \<Rightarrow> u32 \<times> u32" where
  "clamp_range in_x r =
     (let start = fst r; end' = snd r;
          start = (if start < 1 then 1 else start);
          end' = (if end' > in_x - 1 then in_x - 1 else end')
      in (start, end'))"

definition sum_3x3 :: "u32 list \<Rightarrow> u32 \<Rightarrow> u32 list \<Rightarrow> u32 \<Rightarrow> u32 \<Rightarrow> fault + u32" where
  "sum_3x3 inp in_x k i j =
     rbind (mac inp ((j - 1) * in_x + (i - 1)) k 0 0) (\<lambda>sumw.
     rbind (mac inp ((j - 1) * in_x + (i + 0)) k 1 sumw) (\<lambda>sumw.
     rbind (mac inp ((j - 1) * in_x + (i + 1)) k 2 sumw) (\<lambda>sumw.
     rbind (mac inp ((j + 0) * in_x + (i - 1)) k 3 sumw) (\<lambda>sumw.
     rbind (mac inp ((j + 0) * in_x + (i + 0)) k 4 sumw) (\<lambda>sumw.
     rbind (mac inp ((j + 0) * in_x + (i + 1)) k 5 sumw) (\<lambda>sumw.
     rbind (mac inp ((j + 1) * in_x + (i - 1)) k 6 sumw) (\<lambda>sumw.
     rbind (mac inp ((j + 1) * in_x + (i + 0)) k 7 sumw) (\<lambda>sumw.
            mac inp ((j + 1) * in_x + (i + 1)) k 8 sumw))))))))"

definition conv2d_3x3_unrolled_parallel ::
  "u32 list \<Rightarrow> u32 \<Rightarrow> u32 \<Rightarrow> u32 list \<Rightarrow> buffer \<Rightarrow> u32 \<Rightarrow> u32 \<Rightarrow> fault + buffer" where
  "conv2d_3x3_unrolled_parallel inp in_x in_y k out id' numThreads =
     rbind (kernel_weight_3x3 k) (\<lambda>weight.
     rbind (block_range in_x id' numThreads) (\<lambda>r.
     (let (start, end') = clamp_range in_x r in
      for_loop Diverges loop_fuel (\<lambda>i. i < end') (\<lambda>i. i + 1)
        (\<lambda>i out.
           for_loop Diverges loop_fuel (\<lambda>j. j < in_y - 1) (\<lambda>j. j + 1)
             (\<lambda>j out.
                rbind (sum_3x3 inp in_x k i j) (\<lambda>sumw.
                store_quotient out (j * in_x + i) sumw weight))
             1 out)
        start out)))"

definition sum_3x3_shifted :: "u32 list \<Rightarrow> u32 \<Rightarrow> u32 list \<Rightarrow> u32 \<Rightarrow> u32 \<Rightarrow> fault + u32" where
  "sum_3x3_shifted inp in_x k i j =
     rbind (mac inp ((j + 0) * in_x + (i + 0)) k 0 0) (\<lambda>sumw.
     rbind (mac inp ((j + 0) * in_x + (i + 1)) k 1 sumw) (\<lambda>sumw.
     rbind (mac inp ((j + 0) * in_x + (i + 2)) k 2 sumw) (\<lambda>sumw.
     rbind (mac inp ((j + 1) * in_x + (i + 0)) k 3 sumw) (\<lambda>sumw.
     rbind (mac inp ((j + 1) * in_x + (i + 1)) k 4 sumw) (\<lambda>sumw.
     rbind (mac inp ((j + 1) * in_x + (i + 2)) k 5 sumw) (\<lambda>sumw.
     rbind (mac inp ((j + 2) * in_x + (i + 0)) k 6 sumw) (\<lambda>sumw.
     rbind (mac inp ((j + 2) * in_x + (i + 1)) k 7 sumw) (\<lambda>sumw.
            mac inp ((j + 2) * in_x + (i + 2)) k 8 sumw))))))))"

definition conv2d_3x3_shifted_unrolled_parallel ::
  "u32 list \<Rightarrow> u32 \<Rightarrow> u32 \<Rightarrow> u32 list \<Rightarrow> buffer \<Rightarrow> u32 \<Rightarrow> u32 \<Rightarrow> fault + buffer" where
  "conv2d_3x3_shifted_unrolled_parallel inp in_x in_y k out id' numThreads =
     rbind (kernel_weight_3x3 k) (\<lambda>weight.
     for_loop Diverges loop_fuel (\<lambda>i. i < in_x - 2) (\<lambda>i. i + numThreads)
       (\<lambda>i out.
          for_loop Diverges loop_fuel (\<lambda>j. j < in_y - 2) (\<lambda>j. j + 1)
            (\<lambda>j out.
               rbind (sum_3x3_shifted inp in_x k i j) (\<lambda>sumw.
               store_quotient out ((j + 1) * in_x + (i + 1)) sumw weight))
            0 out)
       id' out)"

section \<open>The image utilities\<close>

definition init_conv2d_image :: "buffer \<Rightarrow> u32 \<Rightarrow> u32 \<Rightarrow> u32 \<Rightarrow> u32 \<Rightarrow> fault + buffer" where
  "init_conv2d_image img img_x img_y id' numThreads =
     (if img_y > img_x then
        for_loop Diverges loop_fuel (\<lambda>i. i < img_y) (\<lambda>i. i + numThreads)
          (\<lambda>i img.
             for_loop Diverges loop_fuel (\<lambda>j. j < img_x) (\<lambda>j. j + 1)
               (\<lambda>j img. wr img (i * img_x + j) (rem_i32 i 16 + rem_i32 j 4))
               0 img)
          id' img
      else
        for_loop Diverges loop_fuel (\<lambda>j. j < img_x) (\<lambda>j. j + numThreads)
          (\<lambda>j img.
             for_loop Diverges loop_fuel (\<lambda>i. i < img_y) (\<lambda>i. i + 1)
               (\<lambda>i img. wr img (i * img_x + j) (rem_i32 i 16 + rem_i32 j 4))
               0 img)
          id' img)"

definition zero_conv2d_image :: "buffer \<Rightarrow> u32 \<Rightarrow> u32 \<Rightarrow> u32 \<Rightarrow> u32 \<Rightarrow> fault + buffer" where
  "zero_conv2d_image img img_x img_y id' numThreads =
     (if img_y > img_x then
        for_loop Diverges loop_fuel (\<lambda>i. i < img_y) (\<lambda>i. i + numThreads)
          (\<lambda>i img.
             for_loop Diverges loop_fuel (\<lambda>j. j < img_x) (\<lambda>j. j + 1)
               (\<lambda>j img. wr img (i * img_x + j) 0)
               0 img)
          id' img
      else
        for_loop Diverges loop_fuel (\<lambda>j. j < img_x) (\<lambda>j. j + numThreads)
          (\<lambda>j img.
             for_loop Diverges loop_fuel (\<lambda>i. i < img_y) (\<lambda>i. i + 1)
               (\<lambda>i img. wr img (i * img_x + j) 0)
               0 img)
          id' img)"

text \<open>\<^verbatim>\<open>verify_conv2d_image\<close> leaves its loops through \<^verbatim>\<open>return\<close>: the exit of a loop
  body is a fault or the returned code with the buffer as it is at that moment.\<close>

datatype verify_exit = VFault fault | VReturn u32 buffer

definition verify_row_term :: "u32 \<Rightarrow> u32" where
  "verify_row_term i =
     (let y = rem_i32 i 16;
          y = (if rem_i32 i 16 = 0 then 4 else y);
          y = (if rem_i32 i 16 = 15 then 11 else y)
      in y)"

definition verify_col_term :: "u32 \<Rightarrow> u32" where
  "verify_col_term j = div_i32 (rem_i32 j 4) 2 + 1"

definition verify_conv2d_image ::
  "buffer \<Rightarrow> u32 \<Rightarrow> u32 \<Rightarrow> u32 \<Rightarrow> u32 \<Rightarrow> fault + u32 \<times> buffer" where
  "verify_conv2d_image img img_x img_y id' numThreads =
     (case
        for_loop (VFault Diverges) loop_fuel (\<lambda>i. i < img_y - 1) (\<lambda>i. i + numThreads)
          (\<lambda>i img.
             (let y = verify_row_term i in
              for_loop (VFault Diverges) loop_fuel (\<lambda>j. j < img_x - 1) (\<lambda>j. j + 1)
                (\<lambda>j img.
                   (let x = verify_col_term j in
                    case rd (fst img) (i * img_x + j) of
                      Inl e \<Rightarrow> Inl (VFault e)
                    | Inr v \<Rightarrow>
                        if v \<noteq> x + y
                        then Inl (VReturn (if i + j = 0 then - 1 else i * img_x + j) img)
                        else (case wr img (i * img_x + j) 0 of
                                Inl e \<Rightarrow> Inl (VFault e)
                              | Inr img' \<Rightarrow> Inr img')))
                1 img))
          (id' + 1) img
      of
        Inl (VFault e) \<Rightarrow> Inl e
      | Inl (VReturn code img') \<Rightarrow> Inr (code, img')
      | Inr img' \<Rightarrow> Inr (0, img'))"

section \<open>Running every lane\<close>

text \<open>The lanes \<open>0, \<dots>, numThreads - 1\<close> of one call, one after the other on the same
  buffer; a fault of one lane is the fault of the call.\<close>

definition lane_ids :: "u32 \<Rightarrow> u32 list" where
  "lane_ids numThreads = map of_nat [0 ..< unat numThreads]"

fun run_lanes :: "(buffer \<Rightarrow> u32 \<Rightarrow> fault + buffer) \<Rightarrow> u32 list \<Rightarrow> buffer \<Rightarrow> fault + buffer" where
  "run_lanes f [] out = Inr out"
| "run_lanes f (id' # ids) out = rbind (f out id') (run_lanes f ids)"

text \<open>For \<^verbatim>\<open>verify_conv2d_image\<close> the codes returned by the lanes are collected, in lane
  order.\<close>

fun verify_lanes ::
  "u32 \<Rightarrow> u32 \<Rightarrow> u32 \<Rightarrow> u32 list \<Rightarrow> buffer \<Rightarrow> fault + u32 list \<times> buffer" where
  "verify_lanes img_x img_y numThreads [] img = Inr ([], img)"
| "verify_lanes img_x img_y numThreads (id' # ids) img =
     rbind (verify_conv2d_image img img_x img_y id' numThreads) (\<lambda>(code, img').
     rbind (verify_lanes img_x img_y numThreads ids img') (\<lambda>(codes, img'').
     Inr (code # codes, img'')))"

section \<open>Vocabulary of the statements\<close>

fun foldM :: "('i \<Rightarrow> 's \<Rightarrow> 'e + 's) \<Rightarrow> 'i list \<Rightarrow> 's \<Rightarrow> 'e + 's" where
  "foldM body [] s = Inr s"
| "foldM body (x # xs) s = rbind (body x s) (foldM body xs)"

definition stride_count :: "nat \<Rightarrow> nat \<Rightarrow> nat \<Rightarrow> nat" where
  "stride_count a b st = (b - a + st - 1) div st"

definition apply_writes :: "(nat \<times> u32) list \<Rightarrow> buffer \<Rightarrow> buffer" where
  "apply_writes ws out = (fold (\<lambda>(p, v) cells. cells[p := v]) ws (fst out), snd out @ map fst ws)"


definition stride_list :: "nat \<Rightarrow> nat \<Rightarrow> nat \<Rightarrow> nat list" where
  "stride_list a b st = map (\<lambda>r. a + r * st) [0..<stride_count a b st]"














text \<open>Well-formed calls of the image utilities: the buffer has the stated dimensions,
  every linear index fits an \<^verbatim>\<open>int\<close>, and the lane count is positive and fits an
  \<^verbatim>\<open>int\<close>.\<close>

definition image_wf :: "buffer \<Rightarrow> u32 \<Rightarrow> u32 \<Rightarrow> u32 \<Rightarrow> bool" where
  "image_wf img img_x img_y numThreads \<longleftrightarrow>
     img_x \<noteq> 0 \<and> img_y \<noteq> 0 \<and>
     length (fst img) = unat img_x * unat img_y \<and> length (fst img) < 2 ^ 31 \<and>
     numThreads \<noteq> 0 \<and> unat numThreads < 2 ^ 31"

text \<open>The value \<^verbatim>\<open>x + y\<close> that \<^verbatim>\<open>verify_conv2d_image\<close> expects at row \<open>i\<close>, column \<open>j\<close>.\<close>

definition expected_value :: "nat \<Rightarrow> nat \<Rightarrow> u32" where
  "expected_value i j = verify_col_term (of_nat j) + verify_row_term (of_nat i)"

text \<open>The cells (row, column) a lane of \<^verbatim>\<open>verify_conv2d_image\<close> visits, in the order of its
  two loops.\<close>

definition scan_cells :: "u32 \<Rightarrow> u32 \<Rightarrow> u32 \<Rightarrow> u32 \<Rightarrow> (nat \<times> nat) list" where
  "scan_cells img_x img_y id' numThreads =
     concat (map (\<lambda>i. map (Pair i) [1..<unat img_x - 1])
                 (stride_list (unat id' + 1) (unat img_y - 1) (unat numThreads)))"

definition mismatch :: "u32 list \<Rightarrow> u32 \<Rightarrow> nat \<times> nat \<Rightarrow> bool" where
  "mismatch cells img_x c \<longleftrightarrow>
     cells ! (fst c * unat img_x + snd c) \<noteq> expected_value (fst c) (snd c)"

definition zero_writes :: "u32 \<Rightarrow> (nat \<times> nat) list \<Rightarrow> (nat \<times> u32) list" where
  "zero_writes img_x cs = map (\<lambda>c. (fst c * unat img_x + snd c, 0)) cs"

text \<open>What a lane of \<^verbatim>\<open>verify_conv2d_image\<close> returns on the cells \<open>cells\<close> of the buffer:
  0 when no cell it visits mismatches, else the linear index of the first one that does;
  and the cells it has reset to 0 by then.\<close>

definition lane_code :: "u32 list \<Rightarrow> u32 \<Rightarrow> u32 \<Rightarrow> u32 \<Rightarrow> u32 \<Rightarrow> u32" where
  "lane_code cells img_x img_y numThreads id' =
     (case find (mismatch cells img_x) (scan_cells img_x img_y id' numThreads) of
        None \<Rightarrow> 0
      | Some c \<Rightarrow> of_nat (fst c * unat img_x + snd c))"

definition lane_resets :: "u32 list \<Rightarrow> u32 \<Rightarrow> u32 \<Rightarrow> u32 \<Rightarrow> u32 \<Rightarrow> (nat \<times> u32) list" where
  "lane_resets cells img_x img_y numThreads id' =
     zero_writes img_x (takeWhile (\<lambda>c. \<not> mismatch cells img_x c)
                          (scan_cells img_x img_y id' numThreads))"



section \<open>Evaluating the model\<close>

lemmas eval_defs =
  for_loop.simps advance_id.simps loop_fuel_def rbind_def rd_def wr_def div_u32_def mod_u32_def
  store_quotient_def mac_def kernel_weight_def kernel_weight_3x3_def conv2d_sum_def conv2d_parallel_def
  conv2d_shifted_sum_def conv2d_shifted_parallel_def block_range_def clamp_range_def
  sum_3x3_def conv2d_3x3_unrolled_parallel_def sum_3x3_shifted_def
  conv2d_3x3_shifted_unrolled_parallel_def word_sless_alt

section \<open>The block partition of the unrolled 3x3 kernel\<close>

text \<open>
  Claim C3 (partition cover).  The claim asks that the blocks \<open>[start, end)\<close> of
  the lanes \<open>0, \<dots>, numThreads - 1\<close> tile \<open>[0, in_x)\<close> and, once clamped, tile
  the interior \<open>[1, in_x - 1)\<close>.  The source adds the same remainder share
  \<open>min id rem\<close> to \<open>start\<close> and to \<open>end\<close>, so every block has \<open>in_x div numThreads\<close>
  columns and a column is skipped after each of the first \<open>rem\<close> lanes.  For five
  columns and two lanes the blocks are \<open>[0, 2)\<close> and \<open>[3, 5)\<close>, clamped \<open>[1, 2)\<close> and
  \<open>[3, 4)\<close>: four columns instead of five, and the interior column 2 belongs to no
  lane.
\<close>

theorem block_range_skips_a_column:
  "block_range 5 0 2 = Inr (0, 2) \<and> block_range 5 1 2 = Inr (3, 5) \<and>
   clamp_range 5 (0, 2) = (1, 2) \<and> clamp_range 5 (3, 5) = (3, 4) \<and>
   lane_ids 2 = [0, 1]"
  by (simp add: block_range_def clamp_range_def div_u32_def mod_u32_def rbind_def lane_ids_def
      upt_rec)

lemma rbind_Inr [simp]: "rbind (Inr v) f = f v"
  by (simp add: rbind_def)

lemma rbind_Inl [simp]: "rbind (Inl e) f = Inl e"
  by (simp add: rbind_def)

lemma foldM_append: "foldM body (xs @ ys) s = rbind (foldM body xs s) (foldM body ys)"
  by (induction xs arbitrary: s) (auto simp: rbind_def split: sum.splits)

lemma foldM_map: "foldM body (map f xs) s = foldM (\<lambda>x. body (f x)) xs s"
  by (induction xs arbitrary: s) (auto simp: rbind_def split: sum.splits)


lemma for_loop_iter:
  "(\<And>r. r < t \<Longrightarrow> cond ((incr ^^ r) i)) \<Longrightarrow> \<not> cond ((incr ^^ t) i) \<Longrightarrow> t \<le> fuel \<Longrightarrow>
   for_loop dv fuel cond incr body i s = foldM body (map (\<lambda>r. (incr ^^ r) i) [0..<t]) s"
proof (induction t arbitrary: i fuel s)
  case 0
  then show ?case by (simp add: for_loop.simps)
next
  case (Suc t)
  have c0: "cond i" using Suc.prems(1) [of 0] by simp
  have f0: "fuel \<noteq> 0" using Suc.prems(3) by simp
  have step: "for_loop dv (fuel - 1) cond incr body (incr i) s' =
              foldM body (map (\<lambda>r. (incr ^^ r) (incr i)) [0..<t]) s'" for s'
  proof (rule Suc.IH)
    fix r assume "r < t"
    then show "cond ((incr ^^ r) (incr i))"
      using Suc.prems(1) [of "Suc r"] by (simp add: funpow_swap1)
  next
    show "\<not> cond ((incr ^^ t) (incr i))"
      using Suc.prems(2) by (simp add: funpow_swap1)
  next
    show "t \<le> fuel - 1" using Suc.prems(3) by simp
  qed
  have l: "map (\<lambda>r. (incr ^^ r) i) [0..<Suc t] = i # map (\<lambda>r. (incr ^^ r) (incr i)) [0..<t]"
    by (simp add: upt_conv_Cons map_Suc_upt [symmetric] funpow_swap1 del: upt_Suc)
  show ?case
    unfolding l by (subst for_loop.simps) (use step in \<open>simp add: c0 f0 rbind_def split: sum.splits\<close>)
qed

lemma unat_of_nat32: "n < 2 ^ 32 \<Longrightarrow> unat (of_nat n :: u32) = n"
  by (simp add: unat_of_nat)

lemma sint_of_int32: "- (2 ^ 31) \<le> z \<Longrightarrow> z < 2 ^ 31 \<Longrightarrow> sint (word_of_int z :: u32) = z"
  by (simp add: signed_of_int signed_take_bit_int_eq_self)

lemma unat_lt32: "unat (w :: u32) < 2 ^ 32"
  using unsigned_less [of w, where 'a = nat] by simp

lemma funpow_add_word: "((\<lambda>i::u32. i + st) ^^ r) a = a + of_nat r * st"
  by (induction r) (simp_all add: algebra_simps)

lemma unat_linear:
  "unat a + r * unat st < 2 ^ 32 \<Longrightarrow> unat (a + of_nat r * st :: u32) = unat a + r * unat st"
proof -
  assume b: "unat a + r * unat st < 2 ^ 32"
  have "a + of_nat r * st = of_nat (unat a + r * unat st)"
    by simp
  then show ?thesis
    using b by (simp only: unat_of_nat32)
qed

lemma stride_count_less: "0 < st \<Longrightarrow> r < stride_count a b st \<longleftrightarrow> a + r * st < b"
proof -
  assume st: "0 < st"
  have "r < (b - a + st - 1) div st \<longleftrightarrow> r * st < b - a"
  proof
    assume "r < (b - a + st - 1) div st"
    then have "Suc r \<le> (b - a + st - 1) div st" by simp
    then have "Suc r * st \<le> b - a + st - 1"
      using st by (simp add: less_eq_div_iff_mult_less_eq)
    then show "r * st < b - a" using st by simp
  next
    assume "r * st < b - a"
    then have "Suc r * st \<le> b - a + st - 1" using st by simp
    then have "Suc r \<le> (b - a + st - 1) div st"
      using st by (simp add: less_eq_div_iff_mult_less_eq)
    then show "r < (b - a + st - 1) div st" by simp
  qed
  then show ?thesis by (auto simp: stride_count_def)
qed

lemma for_loop_strided:
  fixes a b st :: u32
  assumes st: "st \<noteq> 0" and nowrap: "unat b + unat st \<le> 2 ^ 32"
  shows "for_loop dv loop_fuel (\<lambda>i. i < b) (\<lambda>i. i + st) body a s =
         foldM body (map (\<lambda>r. a + of_nat r * st) [0..<stride_count (unat a) (unat b) (unat st)]) s"
proof -
  let ?t = "stride_count (unat a) (unat b) (unat st)"
  have st0: "0 < unat st" using st by (simp add: unat_gt_0)
  have in_range: "unat (a + of_nat r * st) = unat a + r * unat st" if "r < ?t" for r
  proof -
    have "unat a + r * unat st < unat b" using that st0 by (simp add: stride_count_less)
    then show ?thesis using unat_lt32 [of b] by (intro unat_linear) simp
  qed
  have c: "(a + of_nat r * st) < b" if "r < ?t" for r
    using that in_range [OF that] st0 by (simp add: word_less_nat_alt stride_count_less)
  have nc: "\<not> (a + of_nat ?t * st) < b"
  proof (cases "?t")
    case 0
    then have "\<not> unat a + 0 * unat st < unat b"
      using stride_count_less [OF st0, of 0 "unat a" "unat b"] by simp
    then show ?thesis using 0 by (simp add: word_less_nat_alt)
  next
    case (Suc t')
    then have "t' < ?t" by simp
    then have lt: "unat a + t' * unat st < unat b" using st0 by (simp add: stride_count_less)
    have ge: "\<not> unat a + ?t * unat st < unat b"
      using stride_count_less [OF st0, of ?t "unat a" "unat b"] by simp
    have "unat a + ?t * unat st < 2 ^ 32" using lt nowrap Suc by simp
    then have "unat (a + of_nat ?t * st) = unat a + ?t * unat st" by (rule unat_linear)
    then show ?thesis using ge by (simp add: word_less_nat_alt)
  qed
  have fuel: "?t \<le> loop_fuel"
  proof (cases "?t")
    case 0 then show ?thesis by simp
  next
    case (Suc t')
    then have "t' < ?t" by simp
    then have "unat a + t' * unat st < unat b" using st0 by (simp add: stride_count_less)
    moreover have "t' \<le> t' * unat st" using st0 by simp
    ultimately have "t' < unat b" by linarith
    then show ?thesis using Suc unat_lt32 [of b] by (simp add: loop_fuel_def)
  qed
  have "for_loop dv loop_fuel (\<lambda>i. i < b) (\<lambda>i. i + st) body a s =
        foldM body (map (\<lambda>r. ((\<lambda>i. i + st) ^^ r) a) [0..<?t]) s"
    by (rule for_loop_iter) (simp_all add: funpow_add_word c nc fuel)
  then show ?thesis by (simp add: funpow_add_word)
qed

lemma for_loop_upto:
  fixes a b :: u32
  shows "for_loop dv loop_fuel (\<lambda>i. i < b) (\<lambda>i. i + 1) body a s =
         foldM body (map of_nat [unat a..<unat b]) s"
proof -
  have "unat b + unat (1::u32) \<le> 2 ^ 32" using unat_lt32 [of b] by simp
  then have "for_loop dv loop_fuel (\<lambda>i. i < b) (\<lambda>i. i + 1) body a s =
    foldM body (map (\<lambda>r. a + of_nat r * 1) [0..<stride_count (unat a) (unat b) (unat (1::u32))]) s"
    by (intro for_loop_strided) simp_all
  also have "map (\<lambda>r. a + of_nat r * 1) [0..<stride_count (unat a) (unat b) (unat (1::u32))]
      = map of_nat [unat a..<unat b]"
  proof -
    have "[unat a..<unat b] = map (\<lambda>r. r + unat a) [0..<unat b - unat a]"
      by (cases "unat a \<le> unat b") (simp_all add: map_add_upt)
    then have "map of_nat [unat a..<unat b] = map (\<lambda>r. a + of_nat r :: u32) [0..<unat b - unat a]"
      by (simp add: o_def add.commute)
    then show ?thesis by (simp add: stride_count_def)
  qed
  finally show ?thesis .
qed

lemma for_loop_upto_fun:
  fixes a b :: u32
  shows "for_loop dv loop_fuel (\<lambda>i. i < b) (\<lambda>i. i + 1) body a =
         foldM body (map of_nat [unat a..<unat b])"
  by (rule ext) (rule for_loop_upto)

lemma foldM_map_fun: "foldM body (map f xs) = foldM (\<lambda>x. body (f x)) xs"
  by (rule ext) (rule foldM_map)

lemma sint_nat_diff:
  fixes h :: u32
  assumes "r < 2 ^ 31" "unat h < 2 ^ 31"
  shows "sint (of_nat r - h :: u32) = int r - int (unat h)"
proof -
  have "of_nat r - h = (word_of_int (int r - int (unat h)) :: u32)"
    by simp
  moreover have "- (2 ^ 31) \<le> int r - int (unat h)" "int r - int (unat h) < 2 ^ 31"
    using assms by (simp_all del: of_nat_unat)
  ultimately show ?thesis by (simp only: sint_of_int32)
qed





lemma apply_writes_Nil [simp]: "apply_writes [] out = out"
  by (simp add: apply_writes_def)

lemma apply_writes_append:
  "apply_writes (ws @ ws') out = apply_writes ws' (apply_writes ws out)"
  by (simp add: apply_writes_def)

lemma length_fold_update [simp]:
  "length (fold (\<lambda>(p, v) cells. cells[p := v]) ws cells) = length cells"
  by (induction ws arbitrary: cells) (auto split: prod.splits)

lemma length_apply_writes [simp]: "length (fst (apply_writes ws out)) = length (fst out)"
  by (simp add: apply_writes_def)


lemma fold_update_other:
  "p \<notin> fst ` set ws \<Longrightarrow> fold (\<lambda>(p, v) cells. cells[p := v]) ws cells ! p = cells ! p"
  by (induction ws arbitrary: cells) (auto split: prod.splits)

lemma fold_update_written:
  "p \<in> fst ` set ws \<Longrightarrow> p < length cells \<Longrightarrow> (\<And>q v. (q, v) \<in> set ws \<Longrightarrow> v = F q) \<Longrightarrow>
   fold (\<lambda>(p, v) cells. cells[p := v]) ws cells ! p = F p"
proof (induction ws arbitrary: cells)
  case Nil
  then show ?case by simp
next
  case (Cons w ws)
  obtain q v where w: "w = (q, v)" by (cases w)
  show ?case
  proof (cases "p \<in> fst ` set ws")
    case True
    then show ?thesis using Cons.prems by (simp add: w Cons.IH)
  next
    case False
    then have "q = p" using Cons.prems(1) by (auto simp: w)
    moreover have "v = F q" using Cons.prems(3) [of q v] by (simp add: w)
    ultimately show ?thesis using False Cons.prems(2) by (simp add: w fold_update_other)
  qed
qed

lemma apply_writes_nth:
  assumes "\<And>q v. (q, v) \<in> set ws \<Longrightarrow> v = F q" "p < length (fst out)"
  shows "fst (apply_writes ws out) ! p = (if p \<in> fst ` set ws then F p else fst out ! p)"
  using assms by (simp add: apply_writes_def fold_update_other fold_update_written)

lemma wr_apply:
  "unat idx < length (fst out) \<Longrightarrow> wr out idx v = Inr (apply_writes [(unat idx, v)] out)"
  by (simp add: wr_def apply_writes_def)





lemma cell_less: "x < W \<Longrightarrow> y < H \<Longrightarrow> y * W + x < W * (H::nat)"
proof -
  assume x: "x < W" and y: "y < H"
  have "y * W + x < y * W + W" using x by simp
  also have "\<dots> = Suc y * W" by simp
  also have "\<dots> \<le> H * W" using y by (intro mult_le_mono1) simp
  finally show ?thesis by (simp add: mult.commute)
qed

lemma unat_cell:
  fixes w :: u32
  assumes "x < unat w" "y < H" "unat w * H < 2 ^ 32"
  shows "unat (of_nat y * w + of_nat x :: u32) = y * unat w + x"
proof -
  have "y * unat w + x < unat w * H" using assms by (intro cell_less)
  then have b: "y * unat w + x < 2 ^ 32" using assms(3) by linarith
  have "of_nat y * w + of_nat x = (of_nat (y * unat w + x) :: u32)" by simp
  then show ?thesis using b by (simp only: unat_of_nat32)
qed




lemma stride_list_mem:
  "0 < st \<Longrightarrow> x \<in> set (stride_list a b st) \<longleftrightarrow> (\<exists>r. x = a + r * st) \<and> x < b"
  by (auto simp: stride_list_def stride_count_less)

lemma unat_sub_nat:
  fixes a :: u32
  assumes "b \<le> unat a"
  shows "unat (a - of_nat b) = unat a - b"
proof -
  have "a - of_nat b = (of_nat (unat a - b) :: u32)"
    using assms by (simp add: of_nat_diff)
  moreover have "unat a - b < 2 ^ 32" using unat_lt32 [of a] by simp
  ultimately show ?thesis by (simp only: unat_of_nat32)
qed


































section \<open>The two general kernels compute the same image\<close>






lemma residue_unique:
  assumes "(a::nat) < N" "b < N" "a + r * N = b + r' * N"
  shows "a = b"
proof -
  have "(a + r * N) mod N = (b + r' * N) mod N" using assms(3) by simp
  then show ?thesis using assms(1,2) by simp
qed

section \<open>The lanes of the centered kernel partition the valid domain\<close>





lemma rbind_Inr_right: "rbind r Inr = r"
  by (simp add: rbind_def split: sum.splits)

lemma mac_rbind_Inr: "rbind (mac inp a k b s) Inr = mac inp a k b s"
  by (rule rbind_Inr_right)


lemma upt_9: "[0..<9] = [0, 1, 2, 3, 4, 5, 6, 7, 8]"
  by (simp add: upt_rec)











section \<open>No kernel writes the border\<close>





















section \<open>Division by zero\<close>








section \<open>The average under an all-ones kernel\<close>




lemma lane_ids_2: "lane_ids 2 = [0, 1]"
  by (simp add: lane_ids_def upt_rec)

section \<open>The two 3x3 kernels\<close>

text \<open>
  Claim C2 (3x3 equivalence).  The strided kernel \<^verbatim>\<open>conv2d_3x3_shifted_unrolled_parallel\<close> is
  the general shifted kernel at \<open>k_x = k_y = 3\<close> (lemma \<open>conv2d_3x3_shifted_general\<close>) and
  writes the whole interior.  The block-partitioned kernel \<^verbatim>\<open>conv2d_3x3_unrolled_parallel\<close>
  computes the same pixel values but inherits the gap of \<open>block_range\<close>: on a 5 by 3 image
  with two lanes it never stores to column 2, so index 7 keeps its old value 1 where the
  strided kernel stores 7.
\<close>

theorem unrolled_3x3_kernels_differ:
  "run_lanes (\<lambda>out id'. conv2d_3x3_unrolled_parallel [0,1,2,3,4,5,6,7,8,9,10,11,12,13,14] 5 3
                [0,0,0,0,1,0,0,0,0] out id' 2) (lane_ids 2)
     ([1,1,1,1,1,1,1,1,1,1,1,1,1,1,1], []) =
     Inr ([1, 1, 1, 1, 1, 1, 6, 1, 8, 1, 1, 1, 1, 1, 1], [6, 8]) \<and>
   run_lanes (\<lambda>out id'. conv2d_3x3_shifted_unrolled_parallel [0,1,2,3,4,5,6,7,8,9,10,11,12,13,14] 5 3
                [0,0,0,0,1,0,0,0,0] out id' 2) (lane_ids 2)
     ([1,1,1,1,1,1,1,1,1,1,1,1,1,1,1], []) =
     Inr ([1, 1, 1, 1, 1, 1, 6, 7, 8, 1, 1, 1, 1, 1, 1], [6, 8, 7])"
  by (simp add: lane_ids_2 eval_defs)

lemma foldM_pairs:
  "foldM (\<lambda>x. foldM (\<lambda>y. body (x, y)) (ys x)) xs s =
   foldM body (concat (map (\<lambda>x. map (Pair x) (ys x)) xs)) s"
proof (induction xs arbitrary: s)
  case Nil
  show ?case by simp
next
  case (Cons x xs)
  show ?case
    by (simp add: foldM_append foldM_map Cons.IH rbind_def split: sum.splits)
qed

lemma foldM_pairs_curried:
  "foldM (\<lambda>x. foldM (body x) (ys x)) xs s =
   foldM (\<lambda>c. body (fst c) (snd c)) (concat (map (\<lambda>x. map (Pair x) (ys x)) xs)) s"
  using foldM_pairs [of "\<lambda>c. body (fst c) (snd c)" ys xs s] by simp

lemma foldM_scan:
  assumes step: "\<And>c img. c \<in> set cs \<Longrightarrow> length (fst img) = L \<Longrightarrow>
            body c img = (if mis (fst img) c then Inl (R c img)
                          else Inr (apply_writes [(idx c, 0)] img))"
    and local: "\<And>cells cells' c. cells ! idx c = cells' ! idx c \<Longrightarrow> mis cells c = mis cells' c"
    and dist: "distinct (map idx cs)"
    and len: "length (fst img) = L"
  shows "foldM body cs img =
         (case find (mis (fst img)) cs of
            None \<Rightarrow> Inr (apply_writes (map (\<lambda>c. (idx c, 0)) cs) img)
          | Some c \<Rightarrow> Inl (R c (apply_writes
                 (map (\<lambda>c. (idx c, 0)) (takeWhile (\<lambda>c. \<not> mis (fst img) c) cs)) img)))"
  using step dist len
proof (induction cs arbitrary: img)
  case Nil
  show ?case by simp
next
  case (Cons c cs)
  show ?case
  proof (cases "mis (fst img) c")
    case True
    then show ?thesis using Cons.prems(1) [of c img] Cons.prems(3) by simp
  next
    case False
    let ?img1 = "apply_writes [(idx c, 0)] img"
    have b: "body c img = Inr ?img1"
      using False Cons.prems(1) [of c img] Cons.prems(3) by simp
    have same: "mis (fst ?img1) c' = mis (fst img) c'" if "c' \<in> set cs" for c'
    proof -
      have "idx c \<notin> idx ` set cs" using Cons.prems(2) by simp
      then have "idx c' \<noteq> idx c" using that by (metis imageI)
      then have "fst ?img1 ! idx c' = fst img ! idx c'" by (simp add: apply_writes_def)
      then show ?thesis by (rule local)
    qed
    have f: "find (mis (fst ?img1)) cs = find (mis (fst img)) cs"
      by (rule find_cong) (simp_all add: same)
    have t: "takeWhile (\<lambda>c. \<not> mis (fst ?img1) c) cs = takeWhile (\<lambda>c. \<not> mis (fst img) c) cs"
      by (rule takeWhile_cong) (simp_all add: same)
    have ih: "foldM body cs ?img1 =
         (case find (mis (fst ?img1)) cs of
            None \<Rightarrow> Inr (apply_writes (map (\<lambda>c. (idx c, 0)) cs) ?img1)
          | Some c \<Rightarrow> Inl (R c (apply_writes
                 (map (\<lambda>c. (idx c, 0)) (takeWhile (\<lambda>c. \<not> mis (fst ?img1) c) cs)) ?img1)))"
      using Cons.prems by (intro Cons.IH) simp_all
    have ap: "apply_writes ws ?img1 = apply_writes ((idx c, 0) # ws) img" for ws
      using apply_writes_append [of "[(idx c, 0)]" ws img] by simp
    show ?thesis
      using False by (simp add: b ih f t ap split: option.splits)
  qed
qed

lemma distinct_stride_list: "0 < st \<Longrightarrow> distinct (stride_list a b st)"
  by (simp add: stride_list_def distinct_map inj_on_def)

lemma distinct_pairs:
  "distinct xs \<Longrightarrow> distinct ys \<Longrightarrow> distinct (concat (map (\<lambda>x. map (Pair x) ys) xs))"
  by (induction xs) (auto simp: distinct_map inj_on_def)

lemma cell_index_inj:
  assumes "j < W" "j' < W" "i * W + j = i' * W + (j'::nat)"
  shows "i = i' \<and> j = j'"
proof -
  have "(i * W + j) div W = (i' * W + j') div W" "(i * W + j) mod W = (i' * W + j') mod W"
    using assms(3) by simp_all
  then show ?thesis using assms(1,2) by simp
qed

lemma scan_cells_mem:
  assumes "numThreads \<noteq> 0"
  shows "(i, j) \<in> set (scan_cells img_x img_y id' numThreads) \<longleftrightarrow>
         (\<exists>r. i = unat id' + 1 + r * unat numThreads) \<and> i < unat img_y - 1 \<and>
         1 \<le> j \<and> j < unat img_x - 1"
proof -
  have N: "0 < unat numThreads" using assms by (simp add: unat_gt_0)
  have "(i, j) \<in> set (scan_cells img_x img_y id' numThreads) \<longleftrightarrow>
        i \<in> set (stride_list (unat id' + 1) (unat img_y - 1) (unat numThreads)) \<and>
        j \<in> set [1..<unat img_x - 1]"
    unfolding scan_cells_def by (auto simp: image_iff)
  then show ?thesis by (simp add: stride_list_mem [OF N])
qed

lemma distinct_scan_cells:
  assumes "numThreads \<noteq> 0"
  shows "distinct (map (\<lambda>c. fst c * unat img_x + snd c) (scan_cells img_x img_y id' numThreads))"
proof -
  have d: "distinct (scan_cells img_x img_y id' numThreads)"
    unfolding scan_cells_def using assms
    by (intro distinct_pairs distinct_stride_list) (simp_all add: unat_gt_0)
  have "inj_on (\<lambda>c. fst c * unat img_x + snd c) (set (scan_cells img_x img_y id' numThreads))"
  proof (rule inj_onI)
    fix c c' assume c: "c \<in> set (scan_cells img_x img_y id' numThreads)"
      and c': "c' \<in> set (scan_cells img_x img_y id' numThreads)"
      and e: "fst c * unat img_x + snd c = fst c' * unat img_x + snd c'"
    have "snd c < unat img_x" "snd c' < unat img_x"
      using c c' scan_cells_mem [OF assms, of "fst c" "snd c" img_x img_y id']
        scan_cells_mem [OF assms, of "fst c'" "snd c'" img_x img_y id'] by (simp, linarith)+
    then have "fst c = fst c' \<and> snd c = snd c'" using e by (rule cell_index_inj)
    then show "c = c'" by (simp add: prod_eq_iff)
  qed
  then show ?thesis using d by (simp add: distinct_map)
qed

lemma verify_cell:
  assumes wf: "image_wf img img_x img_y numThreads"
    and i: "1 \<le> i" "i < unat img_y - 1" and j: "1 \<le> j" "j < unat img_x - 1"
    and len: "length (fst img') = unat img_x * unat img_y"
  shows "(case rd (fst img') (of_nat i * img_x + of_nat j) of
            Inl e \<Rightarrow> Inl (VFault e)
          | Inr v \<Rightarrow>
              if v \<noteq> verify_col_term (of_nat j) + verify_row_term (of_nat i)
              then Inl (VReturn (if (of_nat i :: u32) + of_nat j = 0 then - 1
                                 else of_nat i * img_x + of_nat j) img')
              else (case wr img' (of_nat i * img_x + of_nat j) 0 of
                      Inl e \<Rightarrow> Inl (VFault e)
                    | Inr img'' \<Rightarrow> Inr img'')) =
         (if mismatch (fst img') img_x (i, j)
          then Inl (VReturn (of_nat (i * unat img_x + j)) img')
          else Inr (apply_writes [(i * unat img_x + j, 0)] img'))"
proof -
  let ?W = "unat img_x" and ?H = "unat img_y"
  have WH: "?W * ?H < 2 ^ 31" using wf len by (simp add: image_wf_def)
  have jW: "j < ?W" and iH: "i < ?H" using i j by simp_all
  have u: "unat (of_nat i * img_x + of_nat j :: u32) = i * ?W + j"
    using jW iH WH by (intro unat_cell [where H = ?H]) simp_all
  have lt: "i * ?W + j < ?W * ?H" using jW iH by (rule cell_less)
  have "i + j \<le> i * ?W + j" using jW by (cases ?W) simp_all
  moreover have "(2::nat) ^ 31 < 2 ^ 32" by simp
  ultimately have ij: "i + j < 2 ^ 32" using lt WH by linarith
  have "unat (of_nat (i + j) :: u32) = i + j" using ij by (rule unat_of_nat32)
  then have nz: "(of_nat i :: u32) + of_nat j \<noteq> 0"
    using i(1) by (metis add_is_0 not_one_le_zero of_nat_add unat_0)
  have code: "of_nat i * img_x + of_nat j = (of_nat (i * ?W + j) :: u32)" by simp
  show ?thesis
    using lt len
    by (simp add: rd_def u wr_apply nz mismatch_def expected_value_def)
qed

lemma verify_conv2d_image_eq:
  assumes wf: "image_wf img img_x img_y numThreads" and id: "id' < numThreads"
  shows "verify_conv2d_image img img_x img_y id' numThreads =
     (case find (mismatch (fst img) img_x) (scan_cells img_x img_y id' numThreads) of
        None \<Rightarrow> Inr (0, apply_writes (zero_writes img_x (scan_cells img_x img_y id' numThreads)) img)
      | Some c \<Rightarrow> Inr (of_nat (fst c * unat img_x + snd c),
            apply_writes (zero_writes img_x
              (takeWhile (\<lambda>c. \<not> mismatch (fst img) img_x c)
                 (scan_cells img_x img_y id' numThreads))) img))"
proof -
  let ?W = "unat img_x" and ?H = "unat img_y" and ?N = "unat numThreads"
  let ?cells = "scan_cells img_x img_y id' numThreads"
  let ?B = "\<lambda>(i::u32) (j::u32) (img::buffer).
          (case rd (fst img) (i * img_x + j) of
            Inl e \<Rightarrow> Inl (VFault e)
          | Inr v \<Rightarrow>
              if v \<noteq> verify_col_term j + verify_row_term i
              then Inl (VReturn (if i + j = 0 then - 1 else i * img_x + j) img)
              else (case wr img (i * img_x + j) 0 of
                      Inl e \<Rightarrow> Inl (VFault e)
                    | Inr img'' \<Rightarrow> Inr img''))"
  let ?body = "\<lambda>c. ?B (of_nat (fst c)) (of_nat (snd c))"
  have x0: "img_x \<noteq> 0" and y0: "img_y \<noteq> 0" and n0: "numThreads \<noteq> 0" and N: "?N < 2 ^ 31"
    and len: "length (fst img) = ?W * ?H" and WH: "?W * ?H < 2 ^ 31"
    using wf by (simp_all add: image_wf_def)
  have H31: "?H < 2 ^ 31"
  proof -
    have "0 < ?W" using x0 by (simp add: unat_gt_0)
    then have "?H \<le> ?W * ?H" by simp
    then show ?thesis using WH by linarith
  qed
  have ux: "unat (img_x - 1) = ?W - 1"
    using x0 unat_sub_nat [of 1 img_x] by (simp add: unat_gt_0 Suc_le_eq)
  have uy: "unat (img_y - 1) = ?H - 1"
    using y0 unat_sub_nat [of 1 img_y] by (simp add: unat_gt_0 Suc_le_eq)
  have "unat id' < ?N" using id by (simp add: word_less_nat_alt)
  then have "unat id' + 1 < 2 ^ 32" using N by simp
  then have uid: "unat (id' + 1) = unat id' + 1"
    using unat_linear [of id' 1 1] by simp
  have nowrap: "unat (img_y - 1) + ?N \<le> 2 ^ 32" using uy H31 N by simp
  have rows: "map (\<lambda>r. id' + 1 + of_nat r * numThreads)
                 [0..<stride_count (unat id' + 1) (?H - 1) ?N]
              = map of_nat (stride_list (unat id' + 1) (?H - 1) ?N)"
    by (simp add: stride_list_def)
  have loops: "for_loop (VFault Diverges) loop_fuel (\<lambda>i. i < img_y - 1) (\<lambda>i. i + numThreads)
          (\<lambda>i img.
             (let y = verify_row_term i in
              for_loop (VFault Diverges) loop_fuel (\<lambda>j. j < img_x - 1) (\<lambda>j. j + 1)
                (\<lambda>j img.
                   (let x = verify_col_term j in
                    case rd (fst img) (i * img_x + j) of
                      Inl e \<Rightarrow> Inl (VFault e)
                    | Inr v \<Rightarrow>
                        if v \<noteq> x + y
                        then Inl (VReturn (if i + j = 0 then - 1 else i * img_x + j) img)
                        else (case wr img (i * img_x + j) 0 of
                                Inl e \<Rightarrow> Inl (VFault e)
                              | Inr img' \<Rightarrow> Inr img')))
                1 img))
          (id' + 1) img =
        foldM (\<lambda>i. foldM (?B i) (map of_nat [1..<?W - 1]))
          (map (\<lambda>r. id' + 1 + of_nat r * numThreads)
             [0..<stride_count (unat id' + 1) (?H - 1) ?N]) img"
    unfolding Let_def
    by (simp only: for_loop_strided [OF n0 nowrap] for_loop_upto_fun ux uy uid unat_1)
  also have "\<dots> = foldM (\<lambda>i. foldM (\<lambda>j. ?B (of_nat i) (of_nat j)) [1..<?W - 1])
          (stride_list (unat id' + 1) (?H - 1) ?N) img"
    by (simp only: rows foldM_map foldM_map_fun)
  also have "\<dots> = foldM ?body ?cells img"
    unfolding scan_cells_def by (rule foldM_pairs_curried)
  also have "\<dots> =
     (case find (mismatch (fst img) img_x) ?cells of
        None \<Rightarrow> Inr (apply_writes (map (\<lambda>c. (fst c * ?W + snd c, 0)) ?cells) img)
      | Some c \<Rightarrow> Inl (VReturn (of_nat (fst c * ?W + snd c)) (apply_writes
             (map (\<lambda>c. (fst c * ?W + snd c, 0))
                (takeWhile (\<lambda>c. \<not> mismatch (fst img) img_x c) ?cells)) img)))"
  proof (rule foldM_scan [where L = "?W * ?H" and idx = "\<lambda>c. fst c * ?W + snd c"
        and mis = "\<lambda>cells. mismatch cells img_x"
        and R = "\<lambda>c img. VReturn (of_nat (fst c * ?W + snd c)) img"])
    fix c and img' :: buffer
    assume c: "c \<in> set ?cells" and l: "length (fst img') = ?W * ?H"
    have m: "1 \<le> fst c" "fst c < ?H - 1" "1 \<le> snd c" "snd c < ?W - 1"
      using c scan_cells_mem [OF n0, of "fst c" "snd c" img_x img_y id'] by auto
    show "?body c img' = (if mismatch (fst img') img_x c
            then Inl (VReturn (of_nat (fst c * ?W + snd c)) img')
            else Inr (apply_writes [(fst c * ?W + snd c, 0)] img'))"
      using verify_cell [OF wf m l] by simp
  next
    fix cells cells' :: "u32 list" and c :: "nat \<times> nat"
    assume "cells ! (fst c * ?W + snd c) = cells' ! (fst c * ?W + snd c)"
    then show "mismatch cells img_x c = mismatch cells' img_x c" by (simp add: mismatch_def)
  next
    show "distinct (map (\<lambda>c. fst c * ?W + snd c) ?cells)" by (rule distinct_scan_cells [OF n0])
  qed (rule len)
  finally show ?thesis
    unfolding verify_conv2d_image_def zero_writes_def
    by (simp split: option.splits)
qed

lemma takeWhile_all: "find P xs = None \<Longrightarrow> takeWhile (\<lambda>x. \<not> P x) xs = xs"
  by (induction xs) (auto split: if_splits)

lemma verify_conv2d_image_lane:
  assumes wf: "image_wf img img_x img_y numThreads" and id: "id' < numThreads"
  shows "verify_conv2d_image img img_x img_y id' numThreads =
         Inr (lane_code (fst img) img_x img_y numThreads id',
              apply_writes (lane_resets (fst img) img_x img_y numThreads id') img)"
  unfolding verify_conv2d_image_eq [OF wf id] lane_code_def lane_resets_def
  by (simp add: takeWhile_all split: option.splits)

section \<open>The code returned by the verification\<close>

text \<open>
  Claim C8 (return code of \<^verbatim>\<open>verify_conv2d_image\<close>), as amended.  The claim puts no
  condition on the call; the statement proved needs a well-formed one (\<open>image_wf\<close>: the
  buffer holds \<open>img_x * img_y\<close> elements with \<open>img_x, img_y \<ge> 1\<close>, fewer than \<open>2 ^ 31\<close>, and
  \<open>1 \<le> numThreads < 2 ^ 31\<close>) and a lane \<open>id < numThreads\<close>.  For every such call the
  routine returns.  The cells the lane scans are \<open>scan_cells\<close>, in scan order.  If none
  of them mismatches the expected pattern the code is 0 and every scanned cell has been
  reset to 0.  Otherwise, with \<open>(i, j)\<close> the first mismatching cell in scan order, the
  code is \<open>- 1\<close> if the linear index \<open>i * img_x + j\<close> is 0 and that linear index otherwise;
  the scanned rows and columns start at 1, so the index is never 0 and the code is the
  positive linear index.
\<close>

theorem verify_return_code:
  assumes wf: "image_wf img img_x img_y numThreads" and id: "id' < numThreads"
  shows "\<exists>code img'. verify_conv2d_image img img_x img_y id' numThreads = Inr (code, img') \<and>
     (case find (mismatch (fst img) img_x) (scan_cells img_x img_y id' numThreads) of
        None \<Rightarrow>
          code = 0 \<and>
          (\<forall>c \<in> set (scan_cells img_x img_y id' numThreads).
             fst img' ! (fst c * unat img_x + snd c) = 0)
      | Some c \<Rightarrow>
          code = (if fst c * unat img_x + snd c = 0 then - 1
                  else of_nat (fst c * unat img_x + snd c)) \<and>
          sint code = int (fst c * unat img_x + snd c) \<and> 0 < sint code)"
proof (cases "find (mismatch (fst img) img_x) (scan_cells img_x img_y id' numThreads)")
  case None
  let ?cells = "scan_cells img_x img_y id' numThreads"
  have n0: "numThreads \<noteq> 0" and len: "length (fst img) = unat img_x * unat img_y"
    using wf by (simp_all add: image_wf_def)
  have r: "verify_conv2d_image img img_x img_y id' numThreads =
           Inr (0, apply_writes (zero_writes img_x ?cells) img)"
    using verify_conv2d_image_eq [OF wf id] None by simp
  have "fst (apply_writes (zero_writes img_x ?cells) img) ! (fst c * unat img_x + snd c) = 0"
    if c: "c \<in> set ?cells" for c
  proof -
    have m: "fst c < unat img_y - 1" "snd c < unat img_x - 1"
      using c scan_cells_mem [OF n0, of "fst c" "snd c" img_x img_y id'] by auto
    have "fst c * unat img_x + snd c < unat img_x * unat img_y"
      using m by (intro cell_less) simp_all
    moreover have "fst c * unat img_x + snd c \<in> fst ` set (zero_writes img_x ?cells)"
      using c by (force simp: zero_writes_def)
    ultimately show ?thesis
      using apply_writes_nth [of "zero_writes img_x ?cells" "\<lambda>p. 0" "fst c * unat img_x + snd c" img]
      by (auto simp: zero_writes_def len)
  qed
  then show ?thesis using r None by simp
next
  case (Some c)
  let ?p = "fst c * unat img_x + snd c"
  have n0: "numThreads \<noteq> 0" and WH: "unat img_x * unat img_y < 2 ^ 31"
    using wf by (simp_all add: image_wf_def)
  have "c \<in> set (scan_cells img_x img_y id' numThreads)"
    using Some by (auto simp: find_Some_iff)
  then have m: "1 \<le> fst c" "fst c < unat img_y - 1" "1 \<le> snd c" "snd c < unat img_x - 1"
    using scan_cells_mem [OF n0, of "fst c" "snd c" img_x img_y id'] by auto
  have p0: "0 < ?p" using m by simp
  have "?p < unat img_x * unat img_y" using m by (intro cell_less) simp_all
  then have p31: "?p < 2 ^ 31" using WH by linarith
  have s: "sint (of_nat ?p :: u32) = int ?p"
    using sint_nat_diff [of ?p 0] p31 by simp
  define code :: u32 where "code = of_nat ?p"
  have r: "verify_conv2d_image img img_x img_y id' numThreads =
        Inr (code, apply_writes (zero_writes img_x
              (takeWhile (\<lambda>c. \<not> mismatch (fst img) img_x c)
                 (scan_cells img_x img_y id' numThreads))) img)"
    unfolding code_def using verify_conv2d_image_eq [OF wf id] Some by simp
  have "?p \<noteq> 0" using p0 by (rule gr_implies_not0)
  then have c1: "code = (if ?p = 0 then - 1 else of_nat ?p)"
    unfolding code_def by (simp only: if_False)
  have c2: "sint code = int ?p" unfolding code_def by (rule s)
  have c3: "0 < sint code" using p0 by (simp only: c2 of_nat_0_less_iff)
  show ?thesis
    unfolding Some option.case
    using r c1 c2 c3 by blast
qed

theorem verify_return_code_witness:
  "image_wf ([0,1,2,3,0,1,2,3,4,1,2,3,4,5,2], []) 5 3 2 \<and> (0::u32) < 2 \<and>
   (\<exists>code img'.
      verify_conv2d_image ([0,1,2,3,0,1,2,3,4,1,2,3,4,5,2], []) 5 3 0 2 = Inr (code, img') \<and>
      (case find (mismatch (fst ([0,1,2,3,0,1,2,3,4,1,2,3,4,5,2 :: u32], [] :: nat list)) 5)
                 (scan_cells 5 3 0 2) of
         None \<Rightarrow>
           code = 0 \<and>
           (\<forall>c \<in> set (scan_cells 5 3 0 2). fst img' ! (fst c * unat (5::u32) + snd c) = 0)
       | Some c \<Rightarrow>
           code = (if fst c * unat (5::u32) + snd c = 0 then - 1
                   else of_nat (fst c * unat (5::u32) + snd c)) \<and>
           sint code = int (fst c * unat (5::u32) + snd c) \<and> 0 < sint code))"
proof -
  have wf: "image_wf ([0,1,2,3,0,1,2,3,4,1,2,3,4,5,2], []) 5 3 2"
    by (simp add: image_wf_def)
  have id: "(0::u32) < 2" by simp
  show ?thesis
    using verify_return_code [OF wf id] wf id by blast
qed

lemmas verify_defs = verify_conv2d_image_def verify_row_term_def verify_col_term_def
  rem_i32_def div_i32_def signed_divide_int_def signed_modulo_int_def Let_def

lemma less_max_word: "x < (- 1 :: u32) \<longleftrightarrow> x \<noteq> - 1"
  by (metis word_order.not_eq_extremum)

text \<open>
  As the claim states it, for every call, it fails.  An image of 3 columns and no row
  has no element, so every element matches; but the bound \<open>img_y - 1\<close> is computed in
  \<^verbatim>\<open>uint32_t\<close> and wraps to \<open>2 ^ 32 - 1\<close>, the lane scans row 1 and the call ends reading
  outside the buffer instead of returning 0.  With the lane count 0 the row loop never
  advances: on a 3 by 3 image whose only scanned element, at index 4, holds the expected
  value 2, the lane resets the element, scans it again, and returns 4 although every
  element matched.
\<close>

theorem verify_return_code_fails:
  "verify_conv2d_image ([], []) 3 0 0 1 = Inl OutOfBounds \<and>
   expected_value 1 1 = 2 \<and>
   verify_conv2d_image ([0,0,0,0,2,0,0,0,0], []) 3 3 0 0 =
     Inr (4, ([0,0,0,0,0,0,0,0,0], [4]))"
  by (simp add: expected_value_def verify_defs eval_defs less_max_word word_gt_0)

lemma scan_cells_disjoint:
  assumes n0: "numThreads \<noteq> 0" and a: "a < numThreads" and b: "b < numThreads" and ne: "a \<noteq> b"
    and c: "c \<in> set (scan_cells img_x img_y a numThreads)"
    and c': "c' \<in> set (scan_cells img_x img_y b numThreads)"
  shows "fst c * unat img_x + snd c \<noteq> fst c' * unat img_x + snd c'"
proof
  assume e: "fst c * unat img_x + snd c = fst c' * unat img_x + snd c'"
  obtain r where r: "fst c = unat a + 1 + r * unat numThreads" and j: "snd c < unat img_x - 1"
    using c scan_cells_mem [OF n0, of "fst c" "snd c" img_x img_y a] by auto
  obtain r' where r': "fst c' = unat b + 1 + r' * unat numThreads" and j': "snd c' < unat img_x - 1"
    using c' scan_cells_mem [OF n0, of "fst c'" "snd c'" img_x img_y b] by auto
  have "snd c < unat img_x" "snd c' < unat img_x" using j j' by linarith+
  then have "fst c = fst c'" using e cell_index_inj by blast
  then have "unat a + r * unat numThreads = unat b + r' * unat numThreads" using r r' by simp
  moreover have "unat a < unat numThreads" "unat b < unat numThreads"
    using a b by (simp_all add: word_less_nat_alt)
  ultimately have "unat a = unat b" by (rule residue_unique [rotated 2])
  then show False using ne by (simp add: word_unat_eq_iff)
qed

lemma lane_resets_indices:
  "fst ` set (lane_resets cells img_x img_y numThreads a) \<subseteq>
   (\<lambda>c. fst c * unat img_x + snd c) ` set (scan_cells img_x img_y a numThreads)"
proof -
  have "set (takeWhile (\<lambda>c. \<not> mismatch cells img_x c) (scan_cells img_x img_y a numThreads))
        \<subseteq> set (scan_cells img_x img_y a numThreads)"
    by (auto dest: set_takeWhileD)
  then have "(\<lambda>c. fst c * unat img_x + snd c) `
          set (takeWhile (\<lambda>c. \<not> mismatch cells img_x c) (scan_cells img_x img_y a numThreads))
        \<subseteq> (\<lambda>c. fst c * unat img_x + snd c) ` set (scan_cells img_x img_y a numThreads)"
    by (rule image_mono)
  then show ?thesis by (simp add: lane_resets_def zero_writes_def image_image)
qed

lemma lane_unaffected:
  assumes n0: "numThreads \<noteq> 0" and a: "a < numThreads" and b: "b < numThreads" and ne: "a \<noteq> b"
  shows "lane_code (fst (apply_writes (lane_resets cells img_x img_y numThreads a) img))
            img_x img_y numThreads b = lane_code (fst img) img_x img_y numThreads b"
    and "lane_resets (fst (apply_writes (lane_resets cells img_x img_y numThreads a) img))
            img_x img_y numThreads b = lane_resets (fst img) img_x img_y numThreads b"
proof -
  let ?img1 = "apply_writes (lane_resets cells img_x img_y numThreads a) img"
  have same: "mismatch (fst ?img1) img_x c = mismatch (fst img) img_x c"
    if c: "c \<in> set (scan_cells img_x img_y b numThreads)" for c
  proof -
    have "fst c * unat img_x + snd c \<notin> fst ` set (lane_resets cells img_x img_y numThreads a)"
      using lane_resets_indices [of cells img_x img_y numThreads a]
        scan_cells_disjoint [OF n0 a b ne _ c] by force
    then have "fst ?img1 ! (fst c * unat img_x + snd c) = fst img ! (fst c * unat img_x + snd c)"
      by (simp add: apply_writes_def fold_update_other)
    then show ?thesis by (simp add: mismatch_def)
  qed
  have f: "find (mismatch (fst ?img1) img_x) (scan_cells img_x img_y b numThreads)
         = find (mismatch (fst img) img_x) (scan_cells img_x img_y b numThreads)"
    by (rule find_cong) (simp_all add: same)
  have t: "takeWhile (\<lambda>c. \<not> mismatch (fst ?img1) img_x c) (scan_cells img_x img_y b numThreads)
         = takeWhile (\<lambda>c. \<not> mismatch (fst img) img_x c) (scan_cells img_x img_y b numThreads)"
    by (rule takeWhile_cong) (simp_all add: same)
  show "lane_code (fst ?img1) img_x img_y numThreads b = lane_code (fst img) img_x img_y numThreads b"
    using f by (simp add: lane_code_def)
  show "lane_resets (fst ?img1) img_x img_y numThreads b = lane_resets (fst img) img_x img_y numThreads b"
    using t by (simp add: lane_resets_def)
qed

lemma image_wf_out:
  "image_wf img img_x img_y numThreads \<Longrightarrow> length (fst img') = length (fst img) \<Longrightarrow>
   image_wf img' img_x img_y numThreads"
  by (simp add: image_wf_def)

lemma verify_lanes_eq:
  assumes wf: "image_wf img img_x img_y numThreads"
    and ids: "distinct ids" "\<And>a. a \<in> set ids \<Longrightarrow> a < numThreads"
  shows "verify_lanes img_x img_y numThreads ids img =
         Inr (map (lane_code (fst img) img_x img_y numThreads) ids,
              apply_writes (concat (map (lane_resets (fst img) img_x img_y numThreads) ids)) img)"
  using wf ids
proof (induction ids arbitrary: img)
  case Nil
  show ?case by simp
next
  case (Cons a ids)
  let ?img1 = "apply_writes (lane_resets (fst img) img_x img_y numThreads a) img"
  have n0: "numThreads \<noteq> 0" using Cons.prems(1) by (simp add: image_wf_def)
  have a: "a < numThreads" using Cons.prems(3) by simp
  have v: "verify_conv2d_image img img_x img_y a numThreads =
           Inr (lane_code (fst img) img_x img_y numThreads a, ?img1)"
    by (rule verify_conv2d_image_lane [OF Cons.prems(1) a])
  have wf1: "image_wf ?img1 img_x img_y numThreads"
    using Cons.prems(1) by (rule image_wf_out) simp
  have ih: "verify_lanes img_x img_y numThreads ids ?img1 =
         Inr (map (lane_code (fst ?img1) img_x img_y numThreads) ids,
              apply_writes (concat (map (lane_resets (fst ?img1) img_x img_y numThreads) ids)) ?img1)"
    using Cons.prems by (intro Cons.IH wf1) simp_all
  have un: "lane_code (fst ?img1) img_x img_y numThreads b = lane_code (fst img) img_x img_y numThreads b"
    "lane_resets (fst ?img1) img_x img_y numThreads b = lane_resets (fst img) img_x img_y numThreads b"
    if "b \<in> set ids" for b
  proof -
    have "b < numThreads" "a \<noteq> b" using that Cons.prems(2,3) by auto
    then show "lane_code (fst ?img1) img_x img_y numThreads b = lane_code (fst img) img_x img_y numThreads b"
      "lane_resets (fst ?img1) img_x img_y numThreads b = lane_resets (fst img) img_x img_y numThreads b"
      using lane_unaffected [OF n0 a] by blast+
  qed
  have m1: "map (lane_code (fst ?img1) img_x img_y numThreads) ids
          = map (lane_code (fst img) img_x img_y numThreads) ids"
    by (rule map_cong) (simp_all add: un)
  have m2: "map (lane_resets (fst ?img1) img_x img_y numThreads) ids
          = map (lane_resets (fst img) img_x img_y numThreads) ids"
    by (rule map_cong) (simp_all add: un)
  show ?case
    by (simp add: v ih m1 m2 apply_writes_append)
qed






















section \<open>The stored quotient\<close>



end
